theory Spec2Isabelle
  imports Main
begin

section \<open>Go values: errors and panic payloads\<close>

text \<open>
  The library (package \<open>xgo\<close>) exists in two revisions under \<open>src/\<close>:
  \<^item> \<open>src/xgo.go\<close>: the handler is \<open>Catch\<close>, which joins faults with \<open>errors.Join\<close>, and
    \<open>Require\<close> and \<open>noErr\<close> wrap the fault with the caller's file and line;
  \<^item> \<open>src/unnamed/part_001\<close> and \<open>part_002\<close> (the same code for everything modelled
    here): the handler is \<open>Recover\<close>, which keeps the first fault only, and \<open>Require\<close>
    panics with the payload itself.
  Definitions of the second revision carry the suffix \<open>_p1\<close> where the name is shared.

  An \<open>error\<close> is one of the three concrete error types these files can create:
  \<open>*errors.errorString\<close> (\<open>errors.New\<close>, and \<open>fmt.Errorf\<close> without \<open>%w\<close>),
  \<open>*fmt.wrapError\<close> (\<open>fmt.Errorf\<close> with one \<open>%w\<close>; its wrapped error is nil when the
  operand of \<open>%w\<close> is not an error) and \<open>*errors.joinError\<close> (\<open>errors.Join\<close>).
  An error interface value that may be nil is an \<open>error option\<close>, \<open>None\<close> being nil.
  Equality of the model is structural; Go compares these pointers by identity.
\<close>

datatype error =
    ErrorString string
  | WrapError string "error option"
  | JoinError "error list"

type_synonym err_iface = "error option"

text \<open>A value of type \<open>any\<close>, as handed to \<open>panic\<close> and \<open>Require\<close>.\<close>

datatype val =
    VNil
  | VErr error
  | VStr string
  | VInt int
  | VBool bool

text \<open>The method \<open>Error()\<close>; \<open>joinError\<close> puts a newline between its parts.\<close>

fun join_lines :: "string list \<Rightarrow> string" where
  "join_lines [] = []"
| "join_lines [s] = s"
| "join_lines (s # t # ss) = s @ [CHR 0x0A] @ join_lines (t # ss)"

fun Error :: "error \<Rightarrow> string" where
  "Error (ErrorString s) = s"
| "Error (WrapError msg e) = msg"
| "Error (JoinError es) = join_lines (map Error es)"

text \<open>\<open>errors.Unwrap\<close>: only \<open>wrapError\<close> has an \<open>Unwrap() error\<close> method.\<close>

fun errors_Unwrap :: "error \<Rightarrow> err_iface" where
  "errors_Unwrap (WrapError msg e) = e"
| "errors_Unwrap (ErrorString s) = None"
| "errors_Unwrap (JoinError es) = None"

text \<open>
  \<open>errors.Is(err, target)\<close> for a non-nil \<open>err\<close>: the depth-first walk of the tree that
  \<open>Unwrap() error\<close> and \<open>Unwrap() []error\<close> span, looking for \<open>target\<close>.
\<close>

fun errors_Is :: "error \<Rightarrow> error \<Rightarrow> bool" where
  "errors_Is (ErrorString s) t = (ErrorString s = t)"
| "errors_Is (WrapError msg e) t =
     (WrapError msg e = t \<or> (case e of None \<Rightarrow> False | Some e' \<Rightarrow> errors_Is e' t))"
| "errors_Is (JoinError es) t = (JoinError es = t \<or> list_ex (\<lambda>e. errors_Is e t) es)"

text \<open>\<open>errors.Join\<close>: nil arguments are dropped, and the result is nil when nothing is left.\<close>

fun non_nil :: "err_iface list \<Rightarrow> error list" where
  "non_nil [] = []"
| "non_nil (None # es) = non_nil es"
| "non_nil (Some e # es) = e # non_nil es"

definition errors_Join :: "err_iface list \<Rightarrow> err_iface" where
  "errors_Join errs = (let es = non_nil errs in if es = [] then None else Some (JoinError es))"

subsection \<open>Formatting\<close>

text \<open>Decimal digits, as \<open>%d\<close> and \<open>%v\<close> print an integer.\<close>

definition digit :: "nat \<Rightarrow> char" where
  "digit n = ''0123456789'' ! n"

fun itoa_nat :: "nat \<Rightarrow> string" where
  "itoa_nat n = (if n < 10 then [digit n] else itoa_nat (n div 10) @ [digit (n mod 10)])"

declare itoa_nat.simps [simp del]

definition itoa :: "int \<Rightarrow> string" where
  "itoa i = (if i < 0 then CHR ''-'' # itoa_nat (nat (- i)) else itoa_nat (nat i))"

text \<open>The verb \<open>%v\<close>: an error prints its \<open>Error()\<close>, nil prints \<open><nil>\<close>.\<close>

fun format_v :: "val \<Rightarrow> string" where
  "format_v VNil = ''<nil>''"
| "format_v (VErr e) = Error e"
| "format_v (VStr s) = s"
| "format_v (VInt i) = itoa i"
| "format_v (VBool b) = (if b then ''true'' else ''false'')"

text \<open>
  The verb \<open>%w\<close> inside \<open>fmt.Errorf\<close>: an error operand prints as with \<open>%v\<close>; any other
  operand is a bad verb and prints \<open>%!w(type=value)\<close>, nil prints \<open>%!w(<nil>)\<close>.
\<close>

fun format_w :: "val \<Rightarrow> string" where
  "format_w VNil = ''%!w(<nil>)''"
| "format_w (VErr e) = Error e"
| "format_w (VStr s) = ''%!w(string='' @ s @ '')''"
| "format_w (VInt i) = ''%!w(int='' @ itoa i @ '')''"
| "format_w (VBool b) = ''%!w(bool='' @ format_v (VBool b) @ '')''"

text \<open>\<open>fmt.Errorf("%v", r)\<close>: no \<open>%w\<close>, so the result is \<open>errors.New\<close> of the text.\<close>

definition Errorf_v :: "val \<Rightarrow> error" where
  "Errorf_v r = ErrorString (format_v r)"

text \<open>
  \<open>fmt.Errorf("%w\n\t%s:%d", err, file, line)\<close>: one \<open>%w\<close>, so the result is a
  \<open>wrapError\<close> whose wrapped error is the operand when it is an error and nil otherwise
  (an error that unwraps to nil, like an \<open>errorString\<close> of the same message).
\<close>

definition Errorf_w_at :: "val \<Rightarrow> string \<Rightarrow> int \<Rightarrow> error" where
  "Errorf_w_at err file line =
     WrapError (format_w err @ [CHR 0x0A, CHR 0x09] @ file @ '':'' @ itoa line)
               (case err of VErr e \<Rightarrow> Some e | _ \<Rightarrow> None)"

section \<open>Panics, recover and the handlers\<close>

text \<open>
  A unit of work \<open>fn func()\<close> has no arguments and no results; the executor sees it only
  through the way its call ends: it returns, or it panics with a payload. The payload is
  the value in flight, the one \<open>recover()\<close> yields. (It is nil only where the runtime lets
  \<open>panic(nil)\<close> through: before Go 1.21, or with \<open>GODEBUG=panicnil=1\<close>. From Go 1.21 on the
  runtime puts a \<open>*runtime.PanicNilError\<close> in flight instead, which is an error payload.)
  A unit of work that never finishes (an endless loop, \<open>runtime.Goexit\<close>, \<open>os.Exit\<close>)
  has no outcome: \<open>Call\<close> and \<open>Async\<close> do not return for it, and it is outside the model.
\<close>

datatype outcome = Returns | Panics val

text \<open>The panic in flight in a goroutine while its deferred calls run, if any.\<close>

type_synonym panicking = "val option"

definition after_call :: "outcome \<Rightarrow> panicking" where
  "after_call oc = (case oc of Returns \<Rightarrow> None | Panics v \<Rightarrow> Some v)"

text \<open>
  \<open>recover()\<close>, called directly by a deferred function: it yields the payload in flight
  and stops the panic; it yields nil when there is none.
\<close>

definition recover :: "panicking \<Rightarrow> val \<times> panicking" where
  "recover p = (case p of None \<Rightarrow> (VNil, None) | Some v \<Rightarrow> (v, None))"

text \<open>
  Memory: the cells that hold an \<open>error\<close> variable. A \<open>*error\<close> is an address or nil.
\<close>

type_synonym addr = nat
type_synonym store = "addr \<Rightarrow> err_iface"
type_synonym error_ptr = "addr option"

text \<open>The type assertion \<open>_, ok := r.(error)\<close>: it fails on nil and on every non-error value.\<close>

fun is_error :: "val \<Rightarrow> bool" where
  "is_error (VErr e) = True"
| "is_error v = False"

text \<open>The type assertion \<open>r.(error)\<close> of both handlers, with its \<open>fmt.Errorf("%v", r)\<close> branch.\<close>

definition as_error :: "val \<Rightarrow> error" where
  "as_error r = (case r of VErr e \<Rightarrow> e | _ \<Rightarrow> Errorf_v r)"

text \<open>
  \<open>Catch(err *error)\<close> of \<open>xgo.go\<close>, run as a deferred call. \<open>recover()\<close> is the init
  statement of the \<open>if\<close>, so it runs whatever the pointer is.
\<close>

definition Catch :: "error_ptr \<Rightarrow> panicking \<times> store \<Rightarrow> panicking \<times> store" where
  "Catch err ps =
     (let (r, p') = recover (fst ps); st = snd ps in
      case err of
        None \<Rightarrow> (p', st)
      | Some a \<Rightarrow>
          if r \<noteq> VNil then
            (let e = as_error r;
                 e' = (if st a \<noteq> None then errors_Join [st a, Some e] else Some e)
             in (p', st(a := e')))
          else (p', st))"

text \<open>\<open>Recover(err *error)\<close> of \<open>part_001\<close> and \<open>part_002\<close>: it writes only into a nil \<open>*err\<close>.\<close>

definition Recover :: "error_ptr \<Rightarrow> panicking \<times> store \<Rightarrow> panicking \<times> store" where
  "Recover err ps =
     (let (r, p') = recover (fst ps); st = snd ps in
      case err of
        None \<Rightarrow> (p', st)
      | Some a \<Rightarrow>
          if r \<noteq> VNil \<and> st a = None then (p', st(a := Some (as_error r)))
          else (p', st))"

text \<open>\<open>Mute()\<close>: \<open>recover()\<close> with its result dropped.\<close>

definition Mute :: "panicking \<Rightarrow> panicking" where
  "Mute p = snd (recover p)"

section \<open>Require\<close>

text \<open>
  \<open>Require(statement, err)\<close> of \<open>xgo.go\<close>. The file and line that \<open>runtime.Caller(1)\<close>
  reports are parameters.
\<close>

definition Require :: "string \<Rightarrow> int \<Rightarrow> bool \<Rightarrow> val \<Rightarrow> outcome" where
  "Require file line statement err =
     (if \<not> statement then Panics (VErr (Errorf_w_at err file line)) else Returns)"

text \<open>\<open>Require(statement, err)\<close> of \<open>part_001\<close> and \<open>part_002\<close>.\<close>

definition Require_p1 :: "bool \<Rightarrow> val \<Rightarrow> outcome" where
  "Require_p1 statement err =
     (if \<not> statement then
        (case err of VErr e \<Rightarrow> Panics err | _ \<Rightarrow> Panics (VErr (Errorf_v err)))
      else Returns)"

section \<open>Call\<close>

text \<open>
  How a call of a function with the result \<open>(err error)\<close> ends: it returns one error
  value, or a panic leaves it.
\<close>

datatype call_result = Returned err_iface | Escapes val

text \<open>
  \<open>Call(fn)\<close>: the named result \<open>err\<close> is a fresh cell (address 0 of the frame's own
  store) holding nil; \<open>fn()\<close> runs; the deferred handler runs with \<open>&err\<close>, also when
  \<open>fn\<close> panicked; then the call returns \<open>err\<close>, unless a panic is still in flight.
\<close>

definition frame_exit :: "panicking \<times> store \<Rightarrow> addr \<Rightarrow> call_result" where
  "frame_exit ps a = (case fst ps of None \<Rightarrow> Returned (snd ps a) | Some v \<Rightarrow> Escapes v)"

definition Call :: "outcome \<Rightarrow> call_result" where
  "Call fn = frame_exit (Catch (Some 0) (after_call fn, (\<lambda>_. None))) 0"

definition Call_p1 :: "outcome \<Rightarrow> call_result" where
  "Call_p1 fn = frame_exit (Recover (Some 0) (after_call fn, (\<lambda>_. None))) 0"

section \<open>Async\<close>

text \<open>
  \<open>Async(fn...)\<close> starts one goroutine per unit of work and waits for all of them. The
  goroutines share the named result \<open>err\<close> and the \<open>sync.WaitGroup\<close>, and they run
  interleaved with each other and with the caller. The model is a step function: a
  schedule (the list of the threads that move, in order) picks the thread of each step. A
  step is one access to the shared \<open>err\<close> or to the WaitGroup, together with the local
  computation before it. A read and a write of \<open>err\<close> are each taken as one indivisible
  step, although the goroutines do not synchronise them and an interface value is two
  words: the model has the interleavings of whole reads and writes, not torn values.

  The control points of a goroutine \<open>func(fn func()) { defer wg.Done(); defer Catch(&err); fn() }\<close>:
  \<^item> \<open>Running fn\<close>: started, \<open>fn()\<close> not finished;
  \<^item> \<open>Test r\<close>: in the handler, \<open>recover()\<close> gave \<open>r\<close>, not nil; next it reads \<open>*err\<close>
    for its test;
  \<^item> \<open>Joining e\<close>: in \<open>Catch\<close> only, \<open>*err\<close> was not nil; next it reads \<open>*err\<close> again as
    the argument of \<open>errors.Join(*err, e)\<close>;
  \<^item> \<open>Store e\<close>: next it assigns \<open>*err = e\<close>;
  \<^item> \<open>Exiting\<close>: the handler is done; next the deferred \<open>wg.Done()\<close> runs;
  \<^item> \<open>Finished\<close>.
\<close>

datatype gor =
    Running outcome
  | Test val
  | Joining error
  | Store err_iface
  | Exiting
  | Finished

text \<open>
  The caller: in the loop, with the units of work still to start; in \<open>wg.Wait()\<close>; or
  returned, with the value of \<open>err\<close> it read.
\<close>

datatype mainpc = Launching "outcome list" | Waiting | Done err_iface

record astate =
  err_var :: err_iface
  wg :: nat
  gors :: "gor list"
  mpc :: mainpc

text \<open>The state after \<open>var wg sync.WaitGroup; wg.Add(len(fn))\<close>; \<open>err\<close> is nil.\<close>

definition init :: "outcome list \<Rightarrow> astate" where
  "init fn = \<lparr>err_var = None, wg = length fn, gors = [], mpc = Launching fn\<rparr>"

text \<open>
  The end of \<open>fn()\<close> and the start of the deferred handler: \<open>recover()\<close> and the test
  \<open>r != nil\<close> (the pointer \<open>&err\<close> is never nil here). The panic is stopped either way.
\<close>

definition enter_handler :: "outcome \<Rightarrow> gor" where
  "enter_handler fn = (let (r, p') = recover (after_call fn) in if r \<noteq> VNil then Test r else Exiting)"

text \<open>
  One step of a handler at a control point, given the current \<open>*err\<close>: the next control
  point and the new \<open>*err\<close>.
\<close>

type_synonym handler = "gor \<Rightarrow> err_iface \<Rightarrow> (gor \<times> err_iface) option"

fun Catch_step :: handler where
  "Catch_step (Test r) cur =
     Some (if cur \<noteq> None then Joining (as_error r) else Store (Some (as_error r)), cur)"
| "Catch_step (Joining e) cur = Some (Store (errors_Join [cur, Some e]), cur)"
| "Catch_step (Store e) cur = Some (Exiting, e)"
| "Catch_step g cur = None"

fun Recover_step :: handler where
  "Recover_step (Test r) cur =
     Some (if cur = None then Store (Some (as_error r)) else Exiting, cur)"
| "Recover_step (Store e) cur = Some (Exiting, e)"
| "Recover_step g cur = None"

text \<open>
  A step of goroutine \<open>i\<close>. \<open>wg.Done()\<close> on a zero counter panics in Go, outside every
  handler; the model has no step there.
\<close>

definition gstep :: "handler \<Rightarrow> nat \<Rightarrow> astate \<Rightarrow> astate option" where
  "gstep h i s =
     (if i < length (gors s) then
        (case gors s ! i of
           Running fn \<Rightarrow> Some (s\<lparr>gors := (gors s)[i := enter_handler fn]\<rparr>)
         | Exiting \<Rightarrow>
             if wg s = 0 then None
             else Some (s\<lparr>wg := wg s - 1, gors := (gors s)[i := Finished]\<rparr>)
         | Finished \<Rightarrow> None
         | g \<Rightarrow>
             (case h g (err_var s) of
                None \<Rightarrow> None
              | Some (g', e') \<Rightarrow> Some (s\<lparr>err_var := e', gors := (gors s)[i := g']\<rparr>)))
      else None)"

text \<open>
  A step of the caller: a \<open>go\<close> statement of the loop, the end of the loop, or the return
  from \<open>wg.Wait()\<close> (which blocks while the counter is not zero) with the \<open>return\<close> that
  reads \<open>err\<close>.
\<close>

definition mstep :: "astate \<Rightarrow> astate option" where
  "mstep s =
     (case mpc s of
        Launching fs \<Rightarrow>
          (case fs of
             [] \<Rightarrow> Some (s\<lparr>mpc := Waiting\<rparr>)
           | f # fs' \<Rightarrow> Some (s\<lparr>gors := gors s @ [Running f], mpc := Launching fs'\<rparr>))
      | Waiting \<Rightarrow> if wg s = 0 then Some (s\<lparr>mpc := Done (err_var s)\<rparr>) else None
      | Done e \<Rightarrow> None)"

datatype tid = Main | Go nat

definition step :: "handler \<Rightarrow> tid \<Rightarrow> astate \<Rightarrow> astate option" where
  "step h t s = (case t of Main \<Rightarrow> mstep s | Go i \<Rightarrow> gstep h i s)"

fun run :: "handler \<Rightarrow> tid list \<Rightarrow> astate \<Rightarrow> astate option" where
  "run h [] s = Some s"
| "run h (t # ts) s = (case step h t s of None \<Rightarrow> None | Some s' \<Rightarrow> run h ts s')"

text \<open>What the caller got back at the end of a run, if it has returned.\<close>

definition returned :: "astate option \<Rightarrow> err_iface option" where
  "returned r = (case r of None \<Rightarrow> None | Some s \<Rightarrow> (case mpc s of Done e \<Rightarrow> Some e | _ \<Rightarrow> None))"

text \<open>\<open>Async\<close> of \<open>xgo.go\<close> (handler \<open>Catch\<close>) and of \<open>part_001\<close>, \<open>part_002\<close> (handler \<open>Recover\<close>).\<close>

definition Async :: "tid list \<Rightarrow> outcome list \<Rightarrow> err_iface option" where
  "Async sched fn = returned (run Catch_step sched (init fn))"

definition Async_p1 :: "tid list \<Rightarrow> outcome list \<Rightarrow> err_iface option" where
  "Async_p1 sched fn = returned (run Recover_step sched (init fn))"

text \<open>A handler of one goroutine running alone, for at most \<open>n\<close> steps: the final \<open>*err\<close>.\<close>

fun alone :: "handler \<Rightarrow> nat \<Rightarrow> gor \<Rightarrow> err_iface \<Rightarrow> err_iface" where
  "alone h 0 g cur = cur"
| "alone h (Suc n) g cur = (case h g cur of None \<Rightarrow> cur | Some (g', cur') \<Rightarrow> alone h n g' cur')"

section \<open>Invariants of the interleaved executions\<close>

text \<open>
  The WaitGroup counter counts the units of work still to start and the goroutines that
  have not finished; once the caller has returned, the counter is zero and the value it
  returned is the value of \<open>err\<close>.
\<close>

fun unfinished :: "gor \<Rightarrow> nat" where
  "unfinished Finished = 0"
| "unfinished g = 1"

fun pending :: "mainpc \<Rightarrow> nat" where
  "pending (Launching fs) = length fs"
| "pending m = 0"

definition joined :: "outcome list \<Rightarrow> astate \<Rightarrow> bool" where
  "joined fn s \<longleftrightarrow>
     wg s = pending (mpc s) + sum_list (map unfinished (gors s)) \<and>
     length (gors s) + pending (mpc s) = length fn \<and>
     (case mpc s of Done e \<Rightarrow> wg s = 0 \<and> err_var s = e | _ \<Rightarrow> True)"

text \<open>
  \<open>Async(wA, wB)\<close> where \<open>wA\<close> panics with \<open>r\<close> and \<open>wB\<close> returns: the goroutine of \<open>wA\<close>
  is the only writer of \<open>err\<close>, and \<open>err\<close> holds its fault from its write on.
\<close>

definition okA :: "val \<Rightarrow> err_iface \<Rightarrow> gor \<Rightarrow> bool" where
  "okA r cur g =
     (case g of
        Running f \<Rightarrow> f = Panics r \<and> cur = None
      | Test r' \<Rightarrow> r' = r \<and> cur = None
      | Joining e \<Rightarrow> False
      | Store e \<Rightarrow> e = Some (as_error r) \<and> cur = None
      | Exiting \<Rightarrow> cur = Some (as_error r)
      | Finished \<Rightarrow> cur = Some (as_error r))"

definition okB :: "gor \<Rightarrow> bool" where
  "okB g = (g = Running Returns \<or> g = Exiting \<or> g = Finished)"

fun one_fault :: "val \<Rightarrow> err_iface \<Rightarrow> mainpc \<Rightarrow> gor list \<Rightarrow> bool" where
  "one_fault r cur m [] = (cur = None \<and> m = Launching [Panics r, Returns])"
| "one_fault r cur m [a] = (okA r cur a \<and> m = Launching [Returns])"
| "one_fault r cur m [a, b] = (okA r cur a \<and> okB b \<and> pending m = 0)"
| "one_fault r cur m (a # b # c # gs) = False"

text \<open>
  \<open>Async(wA, wB)\<close> where both panic with an error, with the handler \<open>Recover\<close>: \<open>err\<close> is
  nil or one of the two errors, and not nil once a goroutine has left its handler.
\<close>

definition okP :: "error \<Rightarrow> err_iface \<Rightarrow> gor \<Rightarrow> bool" where
  "okP e cur g =
     (case g of
        Running f \<Rightarrow> f = Panics (VErr e)
      | Test r' \<Rightarrow> r' = VErr e
      | Joining x \<Rightarrow> False
      | Store x \<Rightarrow> x = Some e
      | Exiting \<Rightarrow> cur \<noteq> None
      | Finished \<Rightarrow> cur \<noteq> None)"

fun two_faults_p1 :: "error \<Rightarrow> error \<Rightarrow> err_iface \<Rightarrow> mainpc \<Rightarrow> gor list \<Rightarrow> bool" where
  "two_faults_p1 e1 e2 cur m [] =
     (cur = None \<and> m = Launching [Panics (VErr e1), Panics (VErr e2)])"
| "two_faults_p1 e1 e2 cur m [a] =
     (okP e1 cur a \<and> (cur = None \<or> cur = Some e1) \<and> m = Launching [Panics (VErr e2)])"
| "two_faults_p1 e1 e2 cur m [a, b] =
     (okP e1 cur a \<and> okP e2 cur b \<and> (cur = None \<or> cur = Some e1 \<or> cur = Some e2) \<and>
      pending m = 0)"
| "two_faults_p1 e1 e2 cur m (a # b # c # gs) = False"

text \<open>
  The same two units of work with the handler \<open>Catch\<close>. A goroutine has written once it has
  left its handler. A goroutine joins only after the other one has written; what \<open>err\<close>
  holds follows from who has written.
\<close>

definition written :: "gor \<Rightarrow> bool" where
  "written g = (g = Exiting \<or> g = Finished)"

definition okC :: "error \<Rightarrow> error \<Rightarrow> bool \<Rightarrow> gor \<Rightarrow> bool" where
  "okC e other ow g =
     (case g of
        Running f \<Rightarrow> f = Panics (VErr e)
      | Test r' \<Rightarrow> r' = VErr e
      | Joining x \<Rightarrow> x = e \<and> ow
      | Store x \<Rightarrow> x = Some e \<or> (x = Some (JoinError [other, e]) \<and> ow)
      | Exiting \<Rightarrow> True
      | Finished \<Rightarrow> True)"

definition curC :: "error \<Rightarrow> error \<Rightarrow> bool \<Rightarrow> bool \<Rightarrow> err_iface \<Rightarrow> bool" where
  "curC e1 e2 wa wb cur =
     (if wa then
        (if wb then cur = Some e1 \<or> cur = Some e2 \<or>
                    cur = Some (JoinError [e1, e2]) \<or> cur = Some (JoinError [e2, e1])
         else cur = Some e1)
      else (if wb then cur = Some e2 else cur = None))"

fun two_faults :: "error \<Rightarrow> error \<Rightarrow> err_iface \<Rightarrow> mainpc \<Rightarrow> gor list \<Rightarrow> bool" where
  "two_faults e1 e2 cur m [] =
     (cur = None \<and> m = Launching [Panics (VErr e1), Panics (VErr e2)])"
| "two_faults e1 e2 cur m [a] =
     (okC e1 e2 False a \<and> curC e1 e2 (written a) False cur \<and> m = Launching [Panics (VErr e2)])"
| "two_faults e1 e2 cur m [a, b] =
     (okC e1 e2 (written b) a \<and> okC e2 e1 (written a) b \<and>
      curC e1 e2 (written a) (written b) cur \<and> pending m = 0)"
| "two_faults e1 e2 cur m (a # b # c # gs) = False"

text \<open>
  Progress. Every control point of a goroutine has a bounded number of steps ahead of
  it, and so has the caller; the budget of a state bounds the steps any schedule can still
  take. A goroutine inside a handler is at a control point that this handler can leave.
\<close>

fun steps_left :: "gor \<Rightarrow> nat" where
  "steps_left (Running f) = 5"
| "steps_left (Test r) = 4"
| "steps_left (Joining e) = 3"
| "steps_left (Store e) = 2"
| "steps_left Exiting = 1"
| "steps_left Finished = 0"

fun main_left :: "mainpc \<Rightarrow> nat" where
  "main_left (Launching fs) = 6 * length fs + 2"
| "main_left Waiting = 1"
| "main_left (Done e) = 0"

definition budget :: "astate \<Rightarrow> nat" where
  "budget s = main_left (mpc s) + sum_list (map steps_left (gors s))"

definition can_move :: "handler \<Rightarrow> gor \<Rightarrow> bool" where
  "can_move h g =
     (case g of
        Test r \<Rightarrow> h g None \<noteq> None
      | Joining e \<Rightarrow> h g None \<noteq> None
      | Store e \<Rightarrow> h g None \<noteq> None
      | _ \<Rightarrow> True)"

section \<open>The sequential executor: properties\<close>

lemma errors_Is_refl: "errors_Is e e"
  by (cases e) simp_all

lemma Call_Returns: "Call Returns = Returned None"
  by (simp add: Call_def Catch_def recover_def after_call_def frame_exit_def)

lemma Call_p1_Returns: "Call_p1 Returns = Returned None"
  by (simp add: Call_p1_def Recover_def recover_def after_call_def frame_exit_def)

lemma Call_Panics:
  "Call (Panics r) = Returned (if r = VNil then None else Some (as_error r))"
  by (simp add: Call_def Catch_def recover_def after_call_def frame_exit_def)

lemma Call_p1_Panics:
  "Call_p1 (Panics r) = Returned (if r = VNil then None else Some (as_error r))"
  by (simp add: Call_p1_def Recover_def recover_def after_call_def frame_exit_def)

lemma as_error_VErr: "as_error (VErr e) = e"
  by (simp add: as_error_def)

lemma as_error_other: "\<not> is_error p \<Longrightarrow> as_error p = Errorf_v p"
  by (cases p) (simp_all add: as_error_def)

text \<open>
  C1. In both revisions \<open>Call\<close> ends by returning one error value (possibly nil), however
  the unit of work ends: a panic of the unit of work never leaves \<open>Call\<close>.
\<close>

theorem Call_absorbs_every_panic:
  "(\<exists>e. Call fn = Returned e) \<and> (\<exists>e. Call_p1 fn = Returned e)"
  by (cases fn) (simp_all add: Call_Returns Call_p1_Returns Call_Panics Call_p1_Panics)

theorem Call_absorbs_every_panic_witness:
  "(\<exists>e. Call (Panics (VStr ''boom'')) = Returned e) \<and>
   (\<exists>e. Call_p1 (Panics (VStr ''boom'')) = Returned e)"
  using Call_absorbs_every_panic [of "Panics (VStr ''boom'')"] by simp

text \<open>C2. For a unit of work that returns normally, \<open>Call\<close> returns nil, in both revisions.\<close>

theorem Call_normal_return_nil:
  "Call Returns = Returned None \<and> Call_p1 Returns = Returned None"
  by (simp add: Call_Returns Call_p1_Returns)

text \<open>
  C3. For a unit of work that panics with the error value \<open>e\<close>, \<open>Call\<close> returns a non-nil
  error, in both revisions \<open>e\<close> itself, so that \<open>errors.Is\<close> finds \<open>e\<close> in what is returned.
\<close>

theorem Call_error_payload_roundtrip:
  "Call (Panics (VErr e)) = Returned (Some e) \<and>
   Call_p1 (Panics (VErr e)) = Returned (Some e) \<and>
   errors_Is e e"
  by (simp add: Call_Panics Call_p1_Panics as_error_VErr errors_Is_refl)

theorem Call_error_payload_roundtrip_witness:
  "Call (Panics (VErr (ErrorString ''disk full''))) = Returned (Some (ErrorString ''disk full'')) \<and>
   Call_p1 (Panics (VErr (ErrorString ''disk full''))) = Returned (Some (ErrorString ''disk full'')) \<and>
   errors_Is (ErrorString ''disk full'') (ErrorString ''disk full'')"
  using Call_error_payload_roundtrip [of "ErrorString ''disk full''"] by simp

text \<open>
  C4, as stated, fails for the nil payload: nil is not an error value (the type assertion
  fails on it), and \<open>Call\<close> returns nil for it, in both revisions.
\<close>

theorem Call_non_error_payload_counterexample:
  "\<not> is_error VNil \<and> Call (Panics VNil) = Returned None \<and> Call_p1 (Panics VNil) = Returned None"
  by (simp add: Call_Panics Call_p1_Panics)

text \<open>
  C4, amended. For a unit of work that panics with a non-nil payload \<open>p\<close> that is not an
  error value, \<open>Call\<close> returns, in both revisions, a non-nil error whose message is the
  \<open>%v\<close> rendering of \<open>p\<close>.
\<close>

theorem Call_non_error_payload_message:
  assumes "\<not> is_error p" and "p \<noteq> VNil"
  shows "Call (Panics p) = Returned (Some (Errorf_v p)) \<and>
         Call_p1 (Panics p) = Returned (Some (Errorf_v p)) \<and>
         Error (Errorf_v p) = format_v p"
  using assms by (simp add: Call_Panics Call_p1_Panics as_error_other Errorf_v_def)

theorem Call_non_error_payload_message_witness:
  "\<not> is_error (VStr ''boom'') \<and> VStr ''boom'' \<noteq> VNil \<and>
   Call (Panics (VStr ''boom'')) = Returned (Some (Errorf_v (VStr ''boom''))) \<and>
   Call_p1 (Panics (VStr ''boom'')) = Returned (Some (Errorf_v (VStr ''boom''))) \<and>
   Error (Errorf_v (VStr ''boom'')) = ''boom''"
  using Call_non_error_payload_message [of "VStr ''boom''"] by simp

text \<open>
  C5, as stated, fails in \<open>xgo.go\<close>: there \<open>Require\<close> does not panic with an error payload
  itself but with a new error around it, which carries the file and line of the caller.
\<close>

theorem Require_error_payload_counterexample:
  "Call (Require ''main.go'' 7 False (VErr (ErrorString ''bad''))) =
     Returned (Some (WrapError (''bad'' @ [CHR 0x0A, CHR 0x09] @ ''main.go:7'')
                               (Some (ErrorString ''bad'')))) \<and>
   Call (Require ''main.go'' 7 False (VErr (ErrorString ''bad''))) \<noteq>
     Returned (Some (ErrorString ''bad''))"
  by (simp add: Require_def Call_Panics as_error_def Errorf_w_at_def itoa_def itoa_nat.simps
      digit_def)

text \<open>
  In \<open>xgo.go\<close> a payload that is not an error meets the verb \<open>%w\<close>, which \<open>fmt\<close> accepts
  for errors only: the message of the fault is the bad-verb text, not the \<open>%v\<close> rendering
  of the payload, and the fault wraps nothing.
\<close>

lemma Require_bad_verb:
  "\<exists>w. Call (Require ''main.go'' 7 False (VStr ''bad'')) = Returned (Some w) \<and>
        Error w = ''%!w(string=bad)'' @ [CHR 0x0A, CHR 0x09] @ ''main.go:7'' \<and>
        errors_Unwrap w = None \<and>
        format_v (VStr ''bad'') = ''bad''"
  by (simp add: Require_def Call_Panics as_error_def Errorf_w_at_def itoa_def itoa_nat.simps
      digit_def)

text \<open>
  C5, amended. \<open>Require\<close> with a true condition returns, whatever the payload; with a false
  condition it panics with a non-nil error, which an enclosing \<open>Call\<close> returns.
  In \<open>part_001\<close> and \<open>part_002\<close> that error is the payload itself when the payload is an
  error, and otherwise the error whose message is the \<open>%v\<close> rendering of the payload.
  In \<open>xgo.go\<close>, for an error payload \<open>e\<close>, it is an error that wraps \<open>e\<close> and whose message
  is the message of \<open>e\<close>, a newline, a tab, and \<open>file:line\<close> of the caller of \<open>Require\<close>.
\<close>

theorem Require_behaviour:
  "Require file line True p = Returns \<and>
   Require_p1 True p = Returns \<and>
   (\<exists>w. Require file line False p = Panics (VErr w) \<and>
        Call (Require file line False p) = Returned (Some w)) \<and>
   (\<exists>w. Require_p1 False p = Panics (VErr w) \<and>
        Call_p1 (Require_p1 False p) = Returned (Some w)) \<and>
   Call_p1 (Require_p1 False (VErr e)) = Returned (Some e) \<and>
   (\<not> is_error p \<longrightarrow>
      Call_p1 (Require_p1 False p) = Returned (Some (Errorf_v p)) \<and>
      Error (Errorf_v p) = format_v p) \<and>
   (\<exists>w. Call (Require file line False (VErr e)) = Returned (Some w) \<and>
        errors_Unwrap w = Some e \<and> errors_Is w e \<and>
        Error w = Error e @ [CHR 0x0A, CHR 0x09] @ file @ '':'' @ itoa line)"
  by (cases p)
    (simp_all add: Require_def Require_p1_def Call_Panics Call_p1_Panics as_error_def
      Errorf_w_at_def Errorf_v_def errors_Is_refl)

theorem Require_behaviour_witness:
  "Require ''main.go'' 7 True (VInt 3) = Returns \<and>
   Require_p1 True (VInt 3) = Returns \<and>
   Call_p1 (Require_p1 False (VErr (ErrorString ''bad''))) = Returned (Some (ErrorString ''bad'')) \<and>
   Call_p1 (Require_p1 False (VInt 3)) = Returned (Some (Errorf_v (VInt 3))) \<and>
   Error (Errorf_v (VInt 3)) = format_v (VInt 3) \<and>
   (\<exists>w. Call (Require ''main.go'' 7 False (VErr (ErrorString ''bad''))) = Returned (Some w) \<and>
        errors_Unwrap w = Some (ErrorString ''bad'') \<and> errors_Is w (ErrorString ''bad'') \<and>
        Error w = Error (ErrorString ''bad'') @ [CHR 0x0A, CHR 0x09] @ ''main.go'' @ '':'' @ itoa 7)"
  using Require_behaviour [of "''main.go''" 7 "VInt 3" "ErrorString ''bad''"] by simp

text \<open>
  C9. For a unit of work that panics with a nil payload in flight, \<open>Call\<close> returns nil, as
  it does for a unit of work that returns normally, in both revisions.
\<close>

theorem Call_nil_payload:
  "Call (Panics VNil) = Returned None \<and> Call (Panics VNil) = Call Returns \<and>
   Call_p1 (Panics VNil) = Returned None \<and> Call_p1 (Panics VNil) = Call_p1 Returns"
  by (simp add: Call_Panics Call_p1_Panics Call_Returns Call_p1_Returns)

text \<open>
  C10. Run as a deferred call with a nil pointer while a panic is in flight, \<open>Catch\<close> and
  \<open>Recover\<close> stop the panic and write nothing: the store is unchanged, whatever the payload.
\<close>

theorem handler_nil_pointer_discards:
  "Catch None (Some v, st) = (None, st) \<and> Recover None (Some v, st) = (None, st)"
  by (simp add: Catch_def Recover_def recover_def)

theorem handler_nil_pointer_discards_witness:
  "Catch None (Some (VStr ''boom''), (\<lambda>_. None)) = (None, (\<lambda>_. None)) \<and>
   Recover None (Some (VStr ''boom''), (\<lambda>_. None)) = (None, (\<lambda>_. None))"
  using handler_nil_pointer_discards [of "VStr ''boom''" "\<lambda>_. None"] by simp

section \<open>Async: the join\<close>

lemma Catch_step_agrees:
  "alone Catch_step 3 (enter_handler fn) (st a) = snd (Catch (Some a) (after_call fn, st)) a"
  by (cases fn)
    (simp_all add: enter_handler_def Catch_def recover_def after_call_def numeral_3_eq_3 Let_def)

lemma Recover_step_agrees:
  "alone Recover_step 2 (enter_handler fn) (st a) = snd (Recover (Some a) (after_call fn, st)) a"
  by (cases fn)
    (simp_all add: enter_handler_def Recover_def recover_def after_call_def numeral_2_eq_2 Let_def)

lemma unfinished_update:
  "i < length gs \<Longrightarrow>
   sum_list (map unfinished (gs[i := g])) + unfinished (gs ! i) =
   sum_list (map unfinished gs) + unfinished g"
proof (induction gs arbitrary: i)
  case Nil
  then show ?case by simp
next
  case (Cons a gs)
  show ?case
  proof (cases i)
    case 0
    then show ?thesis by simp
  next
    case (Suc j)
    with Cons.prems have "j < length gs" by simp
    then have "sum_list (map unfinished (gs[j := g])) + unfinished (gs ! j) =
        sum_list (map unfinished gs) + unfinished g"
      by (rule Cons.IH)
    moreover have "(a # gs)[i := g] = a # gs[j := g]" and "(a # gs) ! i = gs ! j"
      using Suc by simp_all
    ultimately show ?thesis by (simp only: list.map sum_list.Cons)
  qed
qed

lemma unfinished_0: "unfinished g = 0 \<longleftrightarrow> g = Finished"
  by (cases g) simp_all

lemma all_finished:
  "sum_list (map unfinished gs) = 0 \<Longrightarrow> list_all (\<lambda>g. g = Finished) gs"
  by (induction gs) (simp_all add: unfinished_0)

lemma all_finished_nth:
  "sum_list (map unfinished gs) = 0 \<Longrightarrow> i < length gs \<Longrightarrow> gs ! i = Finished"
  using all_finished [of gs] by (simp add: list_all_length)

lemma handler_active:
  "h = Catch_step \<or> h = Recover_step \<Longrightarrow> h g cur = Some (g', e') \<Longrightarrow>
   unfinished g' = 1 \<and> unfinished g = 1"
  by (cases g) (auto split: if_splits)

lemma joined_init: "joined fn (init fn)"
  by (simp add: joined_def init_def)

lemma joined_Done:
  "joined fn s \<Longrightarrow> mpc s = Done e \<Longrightarrow>
   sum_list (map unfinished (gors s)) = 0 \<and> length (gors s) = length fn \<and> err_var s = e"
  unfolding joined_def by auto

lemma joined_mstep: "joined fn s \<Longrightarrow> mstep s = Some s' \<Longrightarrow> joined fn s'"
  by (auto simp: joined_def mstep_def split: mainpc.splits list.splits if_splits)

lemma joined_gstep:
  assumes h: "h = Catch_step \<or> h = Recover_step"
    and j: "joined fn s"
    and st: "gstep h i s = Some s'"
  shows "joined fn s'"
proof -
  from st have i: "i < length (gors s)"
    by (auto simp: gstep_def split: if_splits)
  have nd: "\<And>e. mpc s \<noteq> Done e"
  proof
    fix e assume "mpc s = Done e"
    with j have "sum_list (map unfinished (gors s)) = 0" by (simp only: joined_Done)
    then have "gors s ! i = Finished" using i by (rule all_finished_nth)
    with st i show False by (simp add: gstep_def)
  qed
  have handler: "joined fn s'"
    if g: "gors s ! i = Test r \<or> gors s ! i = Joining x \<or> gors s ! i = Store y" for r x y
  proof -
    from g st i obtain g' e' where hh: "h (gors s ! i) (err_var s) = Some (g', e')"
      and s': "s' = s\<lparr>err_var := e', gors := (gors s)[i := g']\<rparr>"
      by (auto simp: gstep_def split: option.splits)
    from handler_active [OF h hh] unfinished_update [OF i, of g'] j nd show ?thesis
      by (auto simp: s' joined_def split: mainpc.splits)
  qed
  show ?thesis
  proof (cases "gors s ! i")
    case (Running f)
    with st i have s': "s' = s\<lparr>gors := (gors s)[i := enter_handler f]\<rparr>"
      by (simp add: gstep_def)
    have "unfinished (enter_handler f) = 1"
      by (cases f) (auto simp: enter_handler_def recover_def after_call_def)
    with unfinished_update [OF i, of "enter_handler f"] Running j show ?thesis
      by (auto simp: s' joined_def split: mainpc.splits)
  next
    case Exiting
    with st i have w: "wg s \<noteq> 0"
      and s': "s' = s\<lparr>wg := wg s - 1, gors := (gors s)[i := Finished]\<rparr>"
      by (auto simp: gstep_def split: if_splits)
    with unfinished_update [OF i, of Finished] Exiting j show ?thesis
      by (auto simp: s' joined_def split: mainpc.splits)
  next
    case Finished
    with st i show ?thesis by (simp add: gstep_def)
  next
    case (Test r)
    then show ?thesis by (simp add: handler)
  next
    case (Joining e)
    then show ?thesis by (simp add: handler)
  next
    case (Store e)
    then show ?thesis by (simp add: handler)
  qed
qed

lemma joined_step:
  "h = Catch_step \<or> h = Recover_step \<Longrightarrow> joined fn s \<Longrightarrow> step h t s = Some s' \<Longrightarrow>
   joined fn s'"
  by (cases t) (auto simp: step_def intro: joined_mstep joined_gstep)

lemma joined_run:
  "h = Catch_step \<or> h = Recover_step \<Longrightarrow> joined fn s \<Longrightarrow> run h sched s = Some s' \<Longrightarrow>
   joined fn s'"
proof (induction sched arbitrary: s)
  case Nil
  then show ?case by simp
next
  case (Cons t ts)
  from Cons.prems(3) obtain s1 where a: "step h t s = Some s1" and b: "run h ts s1 = Some s'"
    by (auto split: option.splits)
  have "joined fn s1"
    using Cons.prems(1,2) a by (rule joined_step)
  with Cons.prems(1) show ?case
    using b by (rule Cons.IH)
qed

lemma joined_Done_terminal:
  assumes j: "joined fn s" and d: "mpc s = Done e"
  shows "step h t s = None"
proof (cases t)
  case Main
  with d show ?thesis by (simp add: step_def mstep_def)
next
  case (Go i)
  from j d have "sum_list (map unfinished (gors s)) = 0" by (simp only: joined_Done)
  then have "i < length (gors s) \<Longrightarrow> gors s ! i = Finished" by (rule all_finished_nth)
  with Go show ?thesis by (simp add: step_def gstep_def)
qed

lemma returned_Some:
  "returned x = Some e \<Longrightarrow> \<exists>s. x = Some s \<and> mpc s = Done e"
  by (auto simp: returned_def split: option.splits mainpc.splits)

lemma two_finished:
  assumes "joined [f1, f2] s" and "mpc s = Done e"
  shows "gors s = [Finished, Finished] \<and> err_var s = e"
proof -
  from joined_Done [OF assms] have fin: "sum_list (map unfinished (gors s)) = 0"
    and len: "length (gors s) = 2" and e: "err_var s = e" by simp_all
  from len obtain a b where gs: "gors s = [a, b]"
    by (cases "gors s"; cases "tl (gors s)"; cases "tl (tl (gors s))") auto
  from all_finished_nth [OF fin, of 0] all_finished_nth [OF fin, of 1] gs
  have "a = Finished" "b = Finished" by simp_all
  with gs e show ?thesis by simp
qed

text \<open>
  C8. In every execution of \<open>Async\<close>, of either revision, under every schedule: once the
  caller has returned, every unit of work has been started and its goroutine has finished,
  the value returned is the value of \<open>err\<close>, and no thread can take a step any more, so
  nothing is written after the return.
\<close>

theorem Async_strict_join:
  assumes "h = Catch_step \<or> h = Recover_step"
    and "run h sched (init fn) = Some s"
    and "mpc s = Done e"
  shows "length (gors s) = length fn \<and> list_all (\<lambda>g. g = Finished) (gors s) \<and>
         err_var s = e \<and> (\<forall>t. step h t s = None)"
proof -
  have j: "joined fn s"
    using assms(1) joined_init assms(2) by (rule joined_run)
  with assms(3) have "sum_list (map unfinished (gors s)) = 0" by (simp only: joined_Done)
  then have "list_all (\<lambda>g. g = Finished) (gors s)" by (rule all_finished)
  moreover from j assms(3) have "length (gors s) = length fn" "err_var s = e"
    by (simp_all only: joined_Done)
  moreover have "\<forall>t. step h t s = None"
    using joined_Done_terminal [OF j assms(3)] by blast
  ultimately show ?thesis by simp
qed

theorem Async_strict_join_witness:
  "run Catch_step [Main, Go 0, Main, Go 1, Go 0, Main, Go 0, Go 1, Go 0, Main]
       (init [Panics (VStr ''boom''), Returns]) =
     Some \<lparr>err_var = Some (ErrorString ''boom''), wg = 0, gors = [Finished, Finished],
           mpc = Done (Some (ErrorString ''boom''))\<rparr> \<and>
   (\<forall>t. step Catch_step t
          \<lparr>err_var = Some (ErrorString ''boom''), wg = 0, gors = [Finished, Finished],
           mpc = Done (Some (ErrorString ''boom''))\<rparr> = None)"
proof -
  let ?s = "\<lparr>err_var = Some (ErrorString ''boom''), wg = 0, gors = [Finished, Finished],
           mpc = Done (Some (ErrorString ''boom''))\<rparr>"
  have r: "run Catch_step [Main, Go 0, Main, Go 1, Go 0, Main, Go 0, Go 1, Go 0, Main]
       (init [Panics (VStr ''boom''), Returns]) = Some ?s"
    by (simp add: init_def step_def mstep_def gstep_def enter_handler_def recover_def
        after_call_def as_error_def Errorf_v_def)
  have d: "mpc ?s = Done (Some (ErrorString ''boom''))" by simp
  from Async_strict_join [OF _ r d] r show ?thesis by simp
qed

section \<open>Async: progress\<close>

lemma weight_update:
  "i < length gs \<Longrightarrow>
   sum_list (map w (gs[i := g])) + w (gs ! i) = sum_list (map w gs) + (w g :: nat)"
proof (induction gs arbitrary: i)
  case Nil
  then show ?case by simp
next
  case (Cons a gs)
  show ?case
  proof (cases i)
    case 0
    then show ?thesis by simp
  next
    case (Suc j)
    with Cons.prems have "j < length gs" by simp
    then have "sum_list (map w (gs[j := g])) + w (gs ! j) = sum_list (map w gs) + w g"
      by (rule Cons.IH)
    moreover have "(a # gs)[i := g] = a # gs[j := g]" and "(a # gs) ! i = gs ! j"
      using Suc by simp_all
    ultimately show ?thesis by (simp only: list.map sum_list.Cons)
  qed
qed

lemma list_all_update:
  "list_all P xs \<Longrightarrow> P y \<Longrightarrow> list_all P (xs[i := y])"
  using set_update_subset_insert [of xs i y] by (auto simp: list_all_iff)

lemma handler_moves:
  "h = Catch_step \<or> h = Recover_step \<Longrightarrow> can_move h g \<Longrightarrow>
   g = Test r \<or> g = Joining x \<or> g = Store y \<Longrightarrow> \<exists>g' e'. h g cur = Some (g', e')"
  by (auto simp: can_move_def)

lemma handler_closed:
  "h = Catch_step \<or> h = Recover_step \<Longrightarrow> h g cur = Some (g', e') \<Longrightarrow>
   can_move h g' \<and> steps_left g' < steps_left g"
  by (cases g) (auto simp: can_move_def split: if_splits)

lemma enter_handler_closed:
  "h = Catch_step \<or> h = Recover_step \<Longrightarrow>
   can_move h (enter_handler f) \<and> steps_left (enter_handler f) < 5"
  by (cases f) (auto simp: enter_handler_def recover_def after_call_def can_move_def)

lemma budget_init: "budget (init fn) = 6 * length fn + 2"
  by (simp add: budget_def init_def)

lemma budget_mstep: "mstep s = Some s' \<Longrightarrow> budget s' < budget s"
  by (auto simp: budget_def mstep_def split: mainpc.splits list.splits if_splits)

lemma can_move_mstep:
  "list_all (can_move h) (gors s) \<Longrightarrow> mstep s = Some s' \<Longrightarrow> list_all (can_move h) (gors s')"
  by (auto simp: mstep_def can_move_def split: mainpc.splits list.splits if_splits)

lemma progress_gstep:
  assumes h: "h = Catch_step \<or> h = Recover_step"
    and c: "list_all (can_move h) (gors s)"
    and st: "gstep h i s = Some s'"
  shows "list_all (can_move h) (gors s') \<and> budget s' < budget s"
proof -
  from st have i: "i < length (gors s)"
    by (auto simp: gstep_def split: if_splits)
  have upd: "list_all (can_move h) (gors s') \<and> budget s' < budget s"
    if g': "gors s' = (gors s)[i := g']" and m: "mpc s' = mpc s"
      and cm: "can_move h g'" and less: "steps_left g' < steps_left (gors s ! i)" for g'
  proof -
    from c cm have "list_all (can_move h) ((gors s)[i := g'])" by (rule list_all_update)
    moreover from weight_update [OF i, of steps_left g'] less
    have "sum_list (map steps_left ((gors s)[i := g'])) < sum_list (map steps_left (gors s))"
      by arith
    ultimately show ?thesis by (simp add: g' m budget_def)
  qed
  have handler: ?thesis
    if g: "gors s ! i = Test r \<or> gors s ! i = Joining x \<or> gors s ! i = Store y" for r x y
  proof -
    from g st i obtain g' e' where hh: "h (gors s ! i) (err_var s) = Some (g', e')"
      and s': "s' = s\<lparr>err_var := e', gors := (gors s)[i := g']\<rparr>"
      by (auto simp: gstep_def split: option.splits)
    from handler_closed [OF h hh] show ?thesis
      by (intro upd [of g']) (simp_all add: s')
  qed
  show ?thesis
  proof (cases "gors s ! i")
    case (Running f)
    with st i have s': "s' = s\<lparr>gors := (gors s)[i := enter_handler f]\<rparr>"
      by (simp add: gstep_def)
    from enter_handler_closed [OF h, of f] Running show ?thesis
      by (intro upd [of "enter_handler f"]) (simp_all add: s')
  next
    case Exiting
    with st i have s': "s' = s\<lparr>wg := wg s - 1, gors := (gors s)[i := Finished]\<rparr>"
      by (auto simp: gstep_def split: if_splits)
    from Exiting show ?thesis
      by (intro upd [of Finished]) (simp_all add: s' can_move_def)
  next
    case Finished
    with st i show ?thesis by (simp add: gstep_def)
  next
    case (Test r)
    then show ?thesis by (simp add: handler)
  next
    case (Joining e)
    then show ?thesis by (simp add: handler)
  next
    case (Store e)
    then show ?thesis by (simp add: handler)
  qed
qed

lemma progress_step:
  assumes "h = Catch_step \<or> h = Recover_step"
    and "list_all (can_move h) (gors s)"
    and "step h t s = Some s'"
  shows "list_all (can_move h) (gors s') \<and> budget s' < budget s"
proof (cases t)
  case Main
  with assms(2,3) show ?thesis
    by (simp add: step_def can_move_mstep budget_mstep)
next
  case (Go i)
  with assms(3) have "gstep h i s = Some s'" by (simp add: step_def)
  with assms(1,2) show ?thesis by (rule progress_gstep)
qed

lemma progress_run:
  "h = Catch_step \<or> h = Recover_step \<Longrightarrow> list_all (can_move h) (gors s) \<Longrightarrow>
   run h sched s = Some s' \<Longrightarrow>
   list_all (can_move h) (gors s') \<and> length sched + budget s' \<le> budget s"
proof (induction sched arbitrary: s)
  case Nil
  then show ?case by simp
next
  case (Cons t ts)
  from Cons.prems(3) obtain s1 where a: "step h t s = Some s1" and b: "run h ts s1 = Some s'"
    by (auto split: option.splits)
  from progress_step [OF Cons.prems(1,2) a]
  have c: "list_all (can_move h) (gors s1)" and l: "budget s1 < budget s" by simp_all
  from Cons.IH [OF Cons.prems(1) c b] l show ?case by simp
qed

lemma not_all_finished:
  "sum_list (map unfinished gs) \<noteq> 0 \<Longrightarrow> \<exists>i<length gs. gs ! i \<noteq> Finished"
proof (induction gs)
  case Nil
  then show ?case by simp
next
  case (Cons a gs)
  show ?case
  proof (cases "a = Finished")
    case True
    with Cons.prems have "sum_list (map unfinished gs) \<noteq> 0" by simp
    from Cons.IH [OF this] obtain i where "i < length gs" "gs ! i \<noteq> Finished" by blast
    then have "Suc i < length (a # gs) \<and> (a # gs) ! Suc i \<noteq> Finished" by simp
    then show ?thesis by blast
  next
    case False
    then have "0 < length (a # gs) \<and> (a # gs) ! 0 \<noteq> Finished" by simp
    then show ?thesis by blast
  qed
qed

lemma no_deadlock:
  assumes h: "h = Catch_step \<or> h = Recover_step"
    and j: "joined fn s"
    and c: "list_all (can_move h) (gors s)"
    and nd: "\<And>e. mpc s \<noteq> Done e"
  shows "\<exists>t s'. step h t s = Some s'"
proof (cases "mstep s")
  case (Some s')
  then have "step h Main s = Some s'" by (simp add: step_def)
  then show ?thesis by blast
next
  case None
  with nd have w: "mpc s = Waiting" and wg: "wg s \<noteq> 0"
    by (auto simp: mstep_def split: mainpc.splits list.splits if_splits)
  from j w wg have "sum_list (map unfinished (gors s)) \<noteq> 0"
    unfolding joined_def by auto
  from not_all_finished [OF this] obtain i
    where i: "i < length (gors s)" and nf: "gors s ! i \<noteq> Finished" by blast
  from c i have cm: "can_move h (gors s ! i)" by (simp add: list_all_length)
  have "\<exists>s'. gstep h i s = Some s'"
  proof (cases "gors s ! i")
    case (Running f)
    with i show ?thesis by (simp add: gstep_def)
  next
    case Exiting
    with i wg show ?thesis by (simp add: gstep_def)
  next
    case Finished
    with nf show ?thesis by simp
  next
    case (Test r)
    with handler_moves [OF h cm, of r _ _ "err_var s"] i show ?thesis
      by (auto simp: gstep_def)
  next
    case (Joining e)
    with handler_moves [OF h cm, of _ e _ "err_var s"] i show ?thesis
      by (auto simp: gstep_def)
  next
    case (Store e)
    with handler_moves [OF h cm, of _ _ e "err_var s"] i show ?thesis
      by (auto simp: gstep_def)
  qed
  then obtain s' where "step h (Go i) s = Some s'" by (auto simp: step_def)
  then show ?thesis by blast
qed

lemma run_append:
  "run h (a @ b) s = (case run h a s of None \<Rightarrow> None | Some s' \<Rightarrow> run h b s')"
  by (induction a arbitrary: s) (simp_all split: option.splits)

lemma completes:
  assumes h: "h = Catch_step \<or> h = Recover_step"
  shows "joined fn s \<Longrightarrow> list_all (can_move h) (gors s) \<Longrightarrow>
         \<exists>sched' s' e. run h sched' s = Some s' \<and> mpc s' = Done e"
proof (induction "budget s" arbitrary: s rule: less_induct)
  case less
  show ?case
  proof (cases "\<exists>e. mpc s = Done e")
    case True
    then obtain e where "mpc s = Done e" by blast
    then have "run h [] s = Some s \<and> mpc s = Done e" by simp
    then show ?thesis by blast
  next
    case False
    then have "\<And>e. mpc s \<noteq> Done e" by blast
    from no_deadlock [OF h less.prems(1,2) this] obtain t s1
      where st: "step h t s = Some s1" by blast
    from progress_step [OF h less.prems(2) st]
    have c: "list_all (can_move h) (gors s1)" and l: "budget s1 < budget s" by simp_all
    have j: "joined fn s1" using h less.prems(1) st by (rule joined_step)
    from less.hyps [OF l j c] obtain sched' s' e
      where "run h sched' s1 = Some s'" "mpc s' = Done e" by blast
    with st have "run h (t # sched') s = Some s' \<and> mpc s' = Done e" by simp
    then show ?thesis by blast
  qed
qed

text \<open>
  For every list of units of work and both handlers: an execution has at most
  \<open>6 * len(fn) + 2\<close> steps; it can always be continued until the caller has returned; and
  when no thread can move, the caller has returned.
\<close>

lemma run_invariants:
  assumes "h = Catch_step \<or> h = Recover_step" and "run h sched (init fn) = Some s"
  shows "joined fn s \<and> list_all (can_move h) (gors s) \<and> length sched + budget s \<le> 6 * length fn + 2"
proof -
  have "list_all (can_move h) (gors (init fn))" by (simp add: init_def)
  from progress_run [OF assms(1) this assms(2)] joined_run [OF assms(1) joined_init assms(2)]
  show ?thesis by (simp add: budget_init)
qed

lemma run_bounded:
  "h = Catch_step \<or> h = Recover_step \<Longrightarrow> run h sched (init fn) = Some s \<Longrightarrow>
   length sched \<le> 6 * length fn + 2"
  using run_invariants [of h sched fn s] by simp

lemma run_stuck_returned:
  assumes "h = Catch_step \<or> h = Recover_step" and "run h sched (init fn) = Some s"
    and "\<forall>t. step h t s = None"
  shows "\<exists>e. returned (run h sched (init fn)) = Some e"
proof (rule ccontr)
  assume "\<not> ?thesis"
  with assms(2) have nd: "\<And>e. mpc s \<noteq> Done e"
    by (auto simp: returned_def)
  from run_invariants [OF assms(1,2)] have "joined fn s" "list_all (can_move h) (gors s)"
    by simp_all
  from no_deadlock [OF assms(1) this nd] assms(3) show False by simp
qed

lemma run_completes:
  assumes "h = Catch_step \<or> h = Recover_step" and "run h sched (init fn) = Some s"
  shows "\<exists>more e. returned (run h (sched @ more) (init fn)) = Some e"
proof -
  from run_invariants [OF assms] have "joined fn s" "list_all (can_move h) (gors s)"
    by simp_all
  from completes [OF assms(1) this] obtain more s' e
    where "run h more s = Some s'" "mpc s' = Done e" by blast
  with assms(2) have "returned (run h (sched @ more) (init fn)) = Some e"
    by (simp add: run_append returned_def)
  then show ?thesis by blast
qed

section \<open>Async: one unit of work panics, the other returns\<close>

lemma one_fault_init:
  "one_fault r (err_var (init [Panics r, Returns])) (mpc (init [Panics r, Returns]))
     (gors (init [Panics r, Returns]))"
  by (simp add: init_def)

lemma one_fault_mstep:
  assumes "one_fault r (err_var s) (mpc s) (gors s)" and "mstep s = Some s'"
  shows "one_fault r (err_var s') (mpc s') (gors s')"
  using assms
  apply (cases "(r, err_var s, mpc s, gors s)" rule: one_fault.cases)
     apply (auto simp: mstep_def okA_def okB_def split: mainpc.splits list.splits if_splits)
  done

lemma one_fault_gstep:
  assumes h: "h = Catch_step \<or> h = Recover_step" and r: "r \<noteq> VNil"
    and inv: "one_fault r (err_var s) (mpc s) (gors s)" and st: "gstep h i s = Some s'"
  shows "one_fault r (err_var s') (mpc s') (gors s')"
proof (cases "(r, err_var s, mpc s, gors s)" rule: one_fault.cases)
  case (1 r0 cur m)
  with st show ?thesis by (simp add: gstep_def)
next
  case (2 r0 cur m a)
  with st have i: "i = 0" by (simp add: gstep_def split: if_splits)
  from 2 inv have a: "okA r (err_var s) a" and m: "mpc s = Launching [Returns]" by simp_all
  from h show ?thesis
  proof
    assume "h = Catch_step"
    with st 2 i a m r show ?thesis
      by (cases a)
        (auto simp: gstep_def okA_def enter_handler_def recover_def after_call_def
          split: if_splits)
  next
    assume "h = Recover_step"
    with st 2 i a m r show ?thesis
      by (cases a)
        (auto simp: gstep_def okA_def enter_handler_def recover_def after_call_def
          split: if_splits)
  qed
next
  case (3 r0 cur m a b)
  with st have i: "i = 0 \<or> i = 1" by (auto simp: gstep_def split: if_splits)
  from 3 inv have a: "okA r (err_var s) a" and b: "okB b" and m: "pending (mpc s) = 0"
    by simp_all
  from i show ?thesis
  proof
    assume i0: "i = 0"
    from h show ?thesis
    proof
      assume "h = Catch_step"
      with st 3 i0 a b m r show ?thesis
        by (cases a)
          (auto simp: gstep_def okA_def enter_handler_def recover_def after_call_def
            split: if_splits)
    next
      assume "h = Recover_step"
      with st 3 i0 a b m r show ?thesis
        by (cases a)
          (auto simp: gstep_def okA_def enter_handler_def recover_def after_call_def
            split: if_splits)
    qed
  next
    assume i1: "i = 1"
    from b have "b = Running Returns \<or> b = Exiting \<or> b = Finished" by (simp add: okB_def)
    with st 3 i1 a m show ?thesis
      by (auto simp: gstep_def okB_def enter_handler_def recover_def after_call_def
          split: if_splits)
  qed
next
  case (4 r0 cur m a b c gs)
  with inv show ?thesis by simp
qed

lemma one_fault_step:
  "h = Catch_step \<or> h = Recover_step \<Longrightarrow> r \<noteq> VNil \<Longrightarrow>
   one_fault r (err_var s) (mpc s) (gors s) \<Longrightarrow> step h t s = Some s' \<Longrightarrow>
   one_fault r (err_var s') (mpc s') (gors s')"
  by (cases t) (auto simp: step_def intro: one_fault_mstep one_fault_gstep)

lemma one_fault_run:
  "h = Catch_step \<or> h = Recover_step \<Longrightarrow> r \<noteq> VNil \<Longrightarrow>
   one_fault r (err_var s) (mpc s) (gors s) \<Longrightarrow> run h sched s = Some s' \<Longrightarrow>
   one_fault r (err_var s') (mpc s') (gors s')"
proof (induction sched arbitrary: s)
  case Nil
  then show ?case by simp
next
  case (Cons t ts)
  from Cons.prems(4) obtain s1 where a: "step h t s = Some s1" and b: "run h ts s1 = Some s'"
    by (auto split: option.splits)
  have "one_fault r (err_var s1) (mpc s1) (gors s1)"
    using Cons.prems(1,2,3) a by (rule one_fault_step)
  with Cons.prems(1,2) show ?case
    using b by (rule Cons.IH)
qed

lemma one_fault_result:
  assumes h: "h = Catch_step \<or> h = Recover_step" and r: "r \<noteq> VNil"
    and ret: "returned (run h sched (init [Panics r, Returns])) = Some e"
  shows "e = Some (as_error r)"
proof -
  let ?fn = "[Panics r, Returns]"
  from returned_Some [OF ret] obtain s
    where run: "run h sched (init ?fn) = Some s" and d: "mpc s = Done e"
    by blast
  have "joined ?fn s"
    using h joined_init run by (rule joined_run)
  from two_finished [OF this d] have gs: "gors s = [Finished, Finished]" and e: "err_var s = e"
    by simp_all
  have "one_fault r (err_var s) (mpc s) (gors s)"
    using h r one_fault_init run by (rule one_fault_run)
  with gs e show ?thesis by (simp add: okA_def)
qed

text \<open>
  C6, as stated, fails when \<open>wA\<close> panics with a nil payload in flight: the handlers guard
  on \<open>r != nil\<close>, and \<open>Async\<close> returns nil, in both revisions.
\<close>

theorem Async_nil_payload_counterexample:
  "Async [Main, Main, Main, Go 0, Go 0, Go 1, Go 1, Main] [Panics VNil, Returns] = Some None \<and>
   Async_p1 [Main, Main, Main, Go 0, Go 0, Go 1, Go 1, Main] [Panics VNil, Returns] = Some None"
  by (simp add: Async_def Async_p1_def returned_def init_def step_def mstep_def gstep_def
      enter_handler_def recover_def after_call_def)

text \<open>
  C6, amended. For \<open>Async(wA, wB)\<close> where \<open>wA\<close> panics with a payload \<open>r\<close> that is not nil
  and \<open>wB\<close> returns normally, in both revisions, under every schedule: whenever \<open>Async\<close>
  has returned, what it returned is the fault of \<open>wA\<close> (the payload itself when it is an
  error, else the error made of its \<open>%v\<close> rendering), not nil and nothing else; and it
  does return: every execution has at most 14 steps, every execution can be continued to
  one in which \<open>Async\<close> has returned that fault, and once no thread can move \<open>Async\<close> has
  returned that fault.
\<close>

theorem Async_single_fault:
  assumes "r \<noteq> VNil"
  shows "(Async sched [Panics r, Returns] = Some e \<longrightarrow> e = Some (as_error r)) \<and>
         (Async_p1 sched [Panics r, Returns] = Some e \<longrightarrow> e = Some (as_error r)) \<and>
         Async [Main, Main, Main, Go 0, Go 0, Go 0, Go 0, Go 1, Go 1, Main] [Panics r, Returns] =
           Some (Some (as_error r)) \<and>
         Async_p1 [Main, Main, Main, Go 0, Go 0, Go 0, Go 0, Go 1, Go 1, Main] [Panics r, Returns] =
           Some (Some (as_error r)) \<and>
         (run Catch_step sched (init [Panics r, Returns]) = Some s \<longrightarrow>
            length sched \<le> 14 \<and>
            (\<exists>more. Async (sched @ more) [Panics r, Returns] = Some (Some (as_error r))) \<and>
            ((\<forall>t. step Catch_step t s = None) \<longrightarrow>
               Async sched [Panics r, Returns] = Some (Some (as_error r)))) \<and>
         (run Recover_step sched (init [Panics r, Returns]) = Some s \<longrightarrow>
            length sched \<le> 14 \<and>
            (\<exists>more. Async_p1 (sched @ more) [Panics r, Returns] = Some (Some (as_error r))) \<and>
            ((\<forall>t. step Recover_step t s = None) \<longrightarrow>
               Async_p1 sched [Panics r, Returns] = Some (Some (as_error r))))"
proof -
  let ?fn = "[Panics r, Returns]"
  have val: "e' = Some (as_error r)"
    if "h = Catch_step \<or> h = Recover_step" and "returned (run h sc (init ?fn)) = Some e'"
    for h sc e'
    using that(1) assms that(2) by (rule one_fault_result)
  have prog: "length sched \<le> 14 \<and>
      (\<exists>more. returned (run h (sched @ more) (init ?fn)) = Some (Some (as_error r))) \<and>
      ((\<forall>t. step h t s = None) \<longrightarrow> returned (run h sched (init ?fn)) = Some (Some (as_error r)))"
    if h: "h = Catch_step \<or> h = Recover_step" and run: "run h sched (init ?fn) = Some s" for h
  proof -
    from run_bounded [OF h run] have "length sched \<le> 14" by simp
    moreover from run_completes [OF h run] obtain more e'
      where m: "returned (run h (sched @ more) (init ?fn)) = Some e'" by blast
    from val [OF h m] m
    have "\<exists>more. returned (run h (sched @ more) (init ?fn)) = Some (Some (as_error r))"
      by blast
    moreover have "returned (run h sched (init ?fn)) = Some (Some (as_error r))"
      if stuck: "\<forall>t. step h t s = None"
    proof -
      from run_stuck_returned [OF h run stuck] obtain e'
        where m: "returned (run h sched (init ?fn)) = Some e'" by blast
      from val [OF h m] m show ?thesis by simp
    qed
    ultimately show ?thesis by blast
  qed
  have "e = Some (as_error r)" if "Async sched ?fn = Some e"
    using that val [of Catch_step sched e] by (simp add: Async_def)
  moreover have "e = Some (as_error r)" if "Async_p1 sched ?fn = Some e"
    using that val [of Recover_step sched e] by (simp add: Async_p1_def)
  moreover have "Async [Main, Main, Main, Go 0, Go 0, Go 0, Go 0, Go 1, Go 1, Main]
      [Panics r, Returns] = Some (Some (as_error r))"
    using assms
    by (simp add: Async_def returned_def init_def step_def mstep_def gstep_def
        enter_handler_def recover_def after_call_def)
  moreover have "Async_p1 [Main, Main, Main, Go 0, Go 0, Go 0, Go 0, Go 1, Go 1, Main]
      [Panics r, Returns] = Some (Some (as_error r))"
    using assms
    by (simp add: Async_p1_def returned_def init_def step_def mstep_def gstep_def
        enter_handler_def recover_def after_call_def)
  moreover from prog [of Catch_step]
  have "run Catch_step sched (init ?fn) = Some s \<longrightarrow>
            length sched \<le> 14 \<and>
            (\<exists>more. Async (sched @ more) ?fn = Some (Some (as_error r))) \<and>
            ((\<forall>t. step Catch_step t s = None) \<longrightarrow> Async sched ?fn = Some (Some (as_error r)))"
    by (simp add: Async_def)
  moreover from prog [of Recover_step]
  have "run Recover_step sched (init ?fn) = Some s \<longrightarrow>
            length sched \<le> 14 \<and>
            (\<exists>more. Async_p1 (sched @ more) ?fn = Some (Some (as_error r))) \<and>
            ((\<forall>t. step Recover_step t s = None) \<longrightarrow> Async_p1 sched ?fn = Some (Some (as_error r)))"
    by (simp add: Async_p1_def)
  ultimately show ?thesis by blast
qed

text \<open>
  An execution that stops after two steps, with \<open>wA\<close> started and past its \<open>recover()\<close>
  and \<open>wB\<close> not started yet: it has not returned, and it can be continued to the return
  of the fault, under both handlers.
\<close>

theorem Async_single_fault_witness:
  "VStr ''boom'' \<noteq> VNil \<and>
   run Catch_step [Main, Go 0] (init [Panics (VStr ''boom''), Returns]) =
     Some \<lparr>err_var = None, wg = 2, gors = [Test (VStr ''boom'')], mpc = Launching [Returns]\<rparr> \<and>
   run Recover_step [Main, Go 0] (init [Panics (VStr ''boom''), Returns]) =
     Some \<lparr>err_var = None, wg = 2, gors = [Test (VStr ''boom'')], mpc = Launching [Returns]\<rparr> \<and>
   Async [Main, Go 0] [Panics (VStr ''boom''), Returns] = None \<and>
   (\<exists>more. Async ([Main, Go 0] @ more) [Panics (VStr ''boom''), Returns] =
      Some (Some (as_error (VStr ''boom'')))) \<and>
   (\<exists>more. Async_p1 ([Main, Go 0] @ more) [Panics (VStr ''boom''), Returns] =
      Some (Some (as_error (VStr ''boom'')))) \<and>
   as_error (VStr ''boom'') = ErrorString ''boom''"
proof -
  let ?s = "\<lparr>err_var = None, wg = 2, gors = [Test (VStr ''boom'')], mpc = Launching [Returns]\<rparr>"
  have a: "run Catch_step [Main, Go 0] (init [Panics (VStr ''boom''), Returns]) = Some ?s"
    by (simp add: init_def step_def mstep_def gstep_def enter_handler_def recover_def
        after_call_def)
  have b: "run Recover_step [Main, Go 0] (init [Panics (VStr ''boom''), Returns]) = Some ?s"
    by (simp add: init_def step_def mstep_def gstep_def enter_handler_def recover_def
        after_call_def)
  have c: "Async [Main, Go 0] [Panics (VStr ''boom''), Returns] = None"
    unfolding Async_def a by (simp add: returned_def)
  have d: "as_error (VStr ''boom'') = ErrorString ''boom''"
    by (simp add: as_error_def Errorf_v_def)
  have n: "VStr ''boom'' \<noteq> VNil" by simp
  from Async_single_fault [OF n, of "[Main, Go 0]" None ?s] a b c d n
  show ?thesis by simp
qed


section \<open>Async: both units of work panic\<close>

lemma two_faults_p1_mstep:
  assumes "two_faults_p1 e1 e2 (err_var s) (mpc s) (gors s)" and "mstep s = Some s'"
  shows "two_faults_p1 e1 e2 (err_var s') (mpc s') (gors s')"
  using assms
  apply (cases "(e1, e2, err_var s, mpc s, gors s)" rule: two_faults_p1.cases)
     apply (auto simp: mstep_def okP_def split: mainpc.splits list.splits if_splits gor.splits)
  done

lemma two_faults_p1_gstep:
  assumes inv: "two_faults_p1 e1 e2 (err_var s) (mpc s) (gors s)"
    and st: "gstep Recover_step i s = Some s'"
  shows "two_faults_p1 e1 e2 (err_var s') (mpc s') (gors s')"
proof (cases "(e1, e2, err_var s, mpc s, gors s)" rule: two_faults_p1.cases)
  case (1 x1 x2 cur m)
  with st show ?thesis by (simp add: gstep_def)
next
  case (2 x1 x2 cur m a)
  with st have i: "i = 0" by (simp add: gstep_def split: if_splits)
  with st 2 inv show ?thesis
    by (cases a)
      (auto simp: gstep_def okP_def enter_handler_def recover_def after_call_def as_error_def
        split: if_splits)
next
  case (3 x1 x2 cur m a b)
  with st have "i = 0 \<or> i = 1" by (auto simp: gstep_def split: if_splits)
  then show ?thesis
  proof
    assume "i = 0"
    with st 3 inv show ?thesis
      by (cases a)
        (auto simp: gstep_def okP_def enter_handler_def recover_def after_call_def as_error_def
          split: if_splits gor.splits)
  next
    assume "i = 1"
    with st 3 inv show ?thesis
      by (cases b)
        (auto simp: gstep_def okP_def enter_handler_def recover_def after_call_def as_error_def
          split: if_splits gor.splits)
  qed
next
  case (4 x1 x2 cur m a b c gs)
  with inv show ?thesis by simp
qed

lemma two_faults_p1_run:
  "two_faults_p1 e1 e2 (err_var s) (mpc s) (gors s) \<Longrightarrow> run Recover_step sched s = Some s' \<Longrightarrow>
   two_faults_p1 e1 e2 (err_var s') (mpc s') (gors s')"
proof (induction sched arbitrary: s)
  case Nil
  then show ?case by simp
next
  case (Cons t ts)
  from Cons.prems(2) obtain s1
    where a: "step Recover_step t s = Some s1" and b: "run Recover_step ts s1 = Some s'"
    by (auto split: option.splits)
  from a Cons.prems(1) have "two_faults_p1 e1 e2 (err_var s1) (mpc s1) (gors s1)"
    by (cases t) (auto simp: step_def intro: two_faults_p1_mstep two_faults_p1_gstep)
  then show ?case
    using b by (rule Cons.IH)
qed

text \<open>
  With the handler \<open>Recover\<close> (\<open>part_001\<close>, \<open>part_002\<close>), under every schedule of whole
  reads and writes of \<open>err\<close>, \<open>Async\<close> on two units of work that panic with errors returns
  exactly one of the two errors. (The writes are as unsynchronised as in \<open>xgo.go\<close>; a torn
  write of the interface value is outside the model.)
\<close>

lemma Async_p1_two_faults:
  assumes "Async_p1 sched [Panics (VErr e1), Panics (VErr e2)] = Some e"
  shows "e = Some e1 \<or> e = Some e2"
proof -
  let ?fn = "[Panics (VErr e1), Panics (VErr e2)]"
  from assms have "returned (run Recover_step sched (init ?fn)) = Some e"
    by (simp add: Async_p1_def)
  from returned_Some [OF this] obtain s
    where run: "run Recover_step sched (init ?fn) = Some s" and d: "mpc s = Done e"
    by blast
  have "joined ?fn s"
    using joined_init run by (rule joined_run [OF disjI2 [OF refl]])
  from two_finished [OF this d] have gs: "gors s = [Finished, Finished]" and e: "err_var s = e"
    by simp_all
  have "two_faults_p1 e1 e2 (err_var (init ?fn)) (mpc (init ?fn)) (gors (init ?fn))"
    by (simp add: init_def)
  then have "two_faults_p1 e1 e2 (err_var s) (mpc s) (gors s)"
    using run by (rule two_faults_p1_run)
  with gs e show ?thesis by (auto simp: okP_def)
qed

lemma two_faults_mstep:
  assumes "two_faults e1 e2 (err_var s) (mpc s) (gors s)" and "mstep s = Some s'"
  shows "two_faults e1 e2 (err_var s') (mpc s') (gors s')"
  using assms
  apply (cases "(e1, e2, err_var s, mpc s, gors s)" rule: two_faults.cases)
     apply (auto simp: mstep_def okC_def curC_def written_def
      split: mainpc.splits list.splits if_splits gor.splits)
  done

lemma two_faults_gstep:
  assumes inv: "two_faults e1 e2 (err_var s) (mpc s) (gors s)"
    and st: "gstep Catch_step i s = Some s'"
  shows "two_faults e1 e2 (err_var s') (mpc s') (gors s')"
proof (cases "(e1, e2, err_var s, mpc s, gors s)" rule: two_faults.cases)
  case (1 x1 x2 cur m)
  with st show ?thesis by (simp add: gstep_def)
next
  case (2 x1 x2 cur m a)
  with st have i: "i = 0" by (simp add: gstep_def split: if_splits)
  with st 2 inv show ?thesis
    by (cases a)
      (auto simp: gstep_def okC_def curC_def written_def enter_handler_def recover_def
        after_call_def as_error_def errors_Join_def split: if_splits)
next
  case (3 x1 x2 cur m a b)
  with st have "i = 0 \<or> i = 1" by (auto simp: gstep_def split: if_splits)
  then show ?thesis
  proof
    assume "i = 0"
    with st 3 inv show ?thesis
      by (cases a)
        (auto simp: gstep_def okC_def curC_def written_def enter_handler_def recover_def
          after_call_def as_error_def errors_Join_def split: if_splits gor.splits)
  next
    assume "i = 1"
    with st 3 inv show ?thesis
      by (cases b)
        (auto simp: gstep_def okC_def curC_def written_def enter_handler_def recover_def
          after_call_def as_error_def errors_Join_def split: if_splits gor.splits)
  qed
next
  case (4 x1 x2 cur m a b c gs)
  with inv show ?thesis by simp
qed

lemma two_faults_run:
  "two_faults e1 e2 (err_var s) (mpc s) (gors s) \<Longrightarrow> run Catch_step sched s = Some s' \<Longrightarrow>
   two_faults e1 e2 (err_var s') (mpc s') (gors s')"
proof (induction sched arbitrary: s)
  case Nil
  then show ?case by simp
next
  case (Cons t ts)
  from Cons.prems(2) obtain s1
    where a: "step Catch_step t s = Some s1" and b: "run Catch_step ts s1 = Some s'"
    by (auto split: option.splits)
  from a Cons.prems(1) have "two_faults e1 e2 (err_var s1) (mpc s1) (gors s1)"
    by (cases t) (auto simp: step_def intro: two_faults_mstep two_faults_gstep)
  then show ?case
    using b by (rule Cons.IH)
qed

text \<open>
  With the handler \<open>Catch\<close> (\<open>xgo.go\<close>), under every schedule of whole reads and writes
  of \<open>err\<close>, \<open>Async\<close> on two units of work that panic with errors returns a non-nil error:
  the join of the two, in either order, or only one of them.
\<close>

lemma Async_two_faults:
  assumes "Async sched [Panics (VErr e1), Panics (VErr e2)] = Some e"
  shows "e = Some (JoinError [e1, e2]) \<or> e = Some (JoinError [e2, e1]) \<or>
         e = Some e1 \<or> e = Some e2"
proof -
  let ?fn = "[Panics (VErr e1), Panics (VErr e2)]"
  from assms have "returned (run Catch_step sched (init ?fn)) = Some e"
    by (simp add: Async_def)
  from returned_Some [OF this] obtain s
    where run: "run Catch_step sched (init ?fn) = Some s" and d: "mpc s = Done e"
    by blast
  have "joined ?fn s"
    using joined_init run by (rule joined_run [OF disjI1 [OF refl]])
  from two_finished [OF this d] have gs: "gors s = [Finished, Finished]" and e: "err_var s = e"
    by simp_all
  have "two_faults e1 e2 (err_var (init ?fn)) (mpc (init ?fn)) (gors (init ?fn))"
    by (simp add: init_def)
  then have "two_faults e1 e2 (err_var s) (mpc s) (gors s)"
    using run by (rule two_faults_run)
  with gs e show ?thesis by (auto simp: curC_def written_def)
qed

text \<open>
  C7. \<open>Async\<close> of \<open>xgo.go\<close> on two units of work that panic with the distinct errors
  \<open>a\<close> and \<open>b\<close>. When the goroutines run one after the other, the result is the join of
  both, and \<open>errors.Is\<close> finds each. When both goroutines test \<open>*err != nil\<close> before
  either assigns, the second assignment overwrites the first: the result is \<open>b\<close> alone, and
  \<open>a\<close> cannot be recovered from it.
\<close>

theorem Async_loses_a_fault:
  "Async [Main, Main, Main, Go 0, Go 1, Go 0, Go 1, Go 0, Go 1, Go 0, Go 1, Main]
     [Panics (VErr (ErrorString ''a'')), Panics (VErr (ErrorString ''b''))] =
     Some (Some (ErrorString ''b'')) \<and>
   \<not> errors_Is (ErrorString ''b'') (ErrorString ''a'') \<and>
   Async [Main, Main, Main, Go 0, Go 0, Go 0, Go 0, Go 1, Go 1, Go 1, Go 1, Go 1, Main]
     [Panics (VErr (ErrorString ''a'')), Panics (VErr (ErrorString ''b''))] =
     Some (Some (JoinError [ErrorString ''a'', ErrorString ''b''])) \<and>
   errors_Is (JoinError [ErrorString ''a'', ErrorString ''b'']) (ErrorString ''a'') \<and>
   errors_Is (JoinError [ErrorString ''a'', ErrorString ''b'']) (ErrorString ''b'')"
  by (simp add: Async_def returned_def init_def step_def mstep_def gstep_def
      enter_handler_def recover_def after_call_def as_error_def errors_Join_def)


end
